theory Spec2Isabelle
  imports Main "HOL-Library.AList"
begin

section \<open>Initiative tracker: data model\<close>

text \<open>
  The embedded code is the phase-state variant of the tracker component
  (the third document of \<^verbatim>\<open>src/components/ui/alert-dialog.tsx\<close>, from
  \<^verbatim>\<open>const STORAGE_KEY\<close> to the end of \<^verbatim>\<open>InitiativeTracker\<close>).

  Modelling decisions.
  \<^item> \<^verbatim>\<open>PhaseCellState\<close>, a union of five string literals, is a datatype;
    \<open>cellName\<close> gives back the string the code stores.
  \<^item> Row and column indices are array indices, hence natural numbers.
  \<^item> \<^verbatim>\<open>Record<string, PhaseCellState>\<close> is an association list with string keys,
    in insertion order; \<^verbatim>\<open>obj[k] = v\<close> is \<open>AList.update\<close> (replace in place,
    else append), \<^verbatim>\<open>obj[k]\<close> is \<open>map_of\<close>. A JavaScript object has no
    duplicate keys: \<open>distinct (map fst vs)\<close> is the well-formedness of a map. Keys
    are taken to be ordinary property names (the code writes keys of the form
    \<^verbatim>\<open>row-col\<close> only).
  \<^item> The callbacks of the component either return early or call \<^verbatim>\<open>save(next)\<close>:
    each is a function to \<open>State option\<close>, \<open>None\<close> being the early return, and
    \<open>save\<close> is applied by the functions on \<open>tracker\<close>, the component state
    together with the storage item.
  \<^item> The storage item is modelled after \<^verbatim>\<open>JSON.parse\<close>, at the type the code
    casts it to; \<^verbatim>\<open>JSON.stringify\<close> followed by \<^verbatim>\<open>JSON.parse\<close> is taken
    to give back the same tree.
\<close>

datatype PhaseCellState = Waiting | Active | Done | Dead | Revived

fun cellName :: "PhaseCellState \<Rightarrow> string" where
  "cellName Waiting = ''waiting''"
| "cellName Active = ''active''"
| "cellName Done = ''done''"
| "cellName Dead = ''dead''"
| "cellName Revived = ''revived''"

definition PHASE_CELL_STATES :: "PhaseCellState list" where
  "PHASE_CELL_STATES = [Waiting, Active, Done, Dead, Revived]"

text \<open>A value of TypeScript's \<^verbatim>\<open>unknown\<close> read from JSON: the code only asks
  whether it is a string, and which.\<close>

datatype unknown = UStr string | UNull | UBool bool | UNum int
  | UArr "unknown list" | UObj "(string \<times> unknown) list"

record State =
  participants :: "string list"
  phases :: "string list"
  values_map :: "(string \<times> PhaseCellState) list"

subsection \<open>Cell keys\<close>

text \<open>The template literal \<^verbatim>\<open>`${rowIndex}-${colIndex}`\<close> prints both indices in
  decimal.\<close>

definition digit :: "nat \<Rightarrow> char" where
  "digit d = ''0123456789'' ! d"

fun decimal :: "nat \<Rightarrow> string" where
  "decimal n = (if n < 10 then [digit n] else decimal (n div 10) @ [digit (n mod 10)])"

declare decimal.simps [simp del]

definition getCellKey :: "nat \<Rightarrow> nat \<Rightarrow> string" where
  "getCellKey rowIndex colIndex = decimal rowIndex @ ''-'' @ decimal colIndex"

text \<open>\<^verbatim>\<open>state.values[getCellKey(r, c)] ?? "waiting"\<close>\<close>

definition cellAt :: "(string \<times> PhaseCellState) list \<Rightarrow> nat \<Rightarrow> nat \<Rightarrow> PhaseCellState" where
  "cellAt vs rowIndex colIndex =
     (case map_of vs (getCellKey rowIndex colIndex) of None \<Rightarrow> Waiting | Some v \<Rightarrow> v)"

definition getCellState :: "State \<Rightarrow> nat \<Rightarrow> nat \<Rightarrow> PhaseCellState" where
  "getCellState state rowIndex colIndex = cellAt (values_map state) rowIndex colIndex"

section \<open>Loading, repairing and saving\<close>

definition isPhaseCellState :: "unknown \<Rightarrow> bool" where
  "isPhaseCellState v =
     (case v of UStr s \<Rightarrow> s \<in> set (map cellName PHASE_CELL_STATES) | _ \<Rightarrow> False)"

text \<open>The narrowing of a checked value to \<^verbatim>\<open>PhaseCellState\<close>.\<close>

definition asPhaseCellState :: "unknown \<Rightarrow> PhaseCellState" where
  "asPhaseCellState v =
     (case v of
        UStr s \<Rightarrow> (case find (\<lambda>c. cellName c = s) PHASE_CELL_STATES of
                     Some c \<Rightarrow> c | None \<Rightarrow> Waiting)
      | _ \<Rightarrow> Waiting)"

definition migrateValues :: "(string \<times> unknown) list \<Rightarrow> (string \<times> PhaseCellState) list" where
  "migrateValues raw =
     fold (\<lambda>(k, v) out. AList.update k (if isPhaseCellState v then asPhaseCellState v else Waiting) out)
       raw []"

definition activeEntries :: "(string \<times> PhaseCellState) list \<Rightarrow> (string \<times> PhaseCellState) list" where
  "activeEntries vs = filter (\<lambda>(_, s). s = Active) vs"

definition ensureSingleActive :: "State \<Rightarrow> State" where
  "ensureSingleActive state =
     (let activeKeys = activeEntries (values_map state) in
      if length activeKeys = 1 then state
      else
        let next = state\<lparr>values_map :=
                     fold (\<lambda>(key, _) vs. AList.update key Done vs) activeKeys (values_map state)\<rparr>
        in if length (participants state) > 0 \<and> length (phases state) > 0
              \<and> length activeKeys \<noteq> 1
           then next\<lparr>values_map := AList.update (getCellKey 0 0) Active (values_map next)\<rparr>
           else next)"

text \<open>What \<^verbatim>\<open>sessionStorage.getItem(STORAGE_KEY)\<close> and \<^verbatim>\<open>JSON.parse\<close> give:
  no item (\<^verbatim>\<open>null\<close> or the empty string), a failure (a syntax error, or the value
  \<^verbatim>\<open>null\<close>, whose property access throws), or an object of the type of
  \<^verbatim>\<open>data\<close>, every property of which is optional.\<close>

record stored_data =
  data_participants :: "string list option"
  data_phases :: "string list option"
  data_values :: "(string \<times> unknown) list option"

datatype stored = NoItem | Unparsable | Parsed stored_data

definition freshState :: State where
  "freshState = \<lparr>participants = [], phases = [''Phase 1''], values_map = []\<rparr>"

text \<open>The record \<^verbatim>\<open>state\<close> that \<^verbatim>\<open>loadStateFromStorage\<close> builds before the
  repair.\<close>

definition parsedState :: "stored_data \<Rightarrow> State" where
  "parsedState d =
     \<lparr>participants = (case data_participants d of Some ps \<Rightarrow> ps | None \<Rightarrow> []),
      phases = (case data_phases d of
                  Some ps \<Rightarrow> (if length ps \<noteq> 0 then ps else [''Phase 1''])
                | None \<Rightarrow> [''Phase 1'']),
      values_map = migrateValues (case data_values d of Some raw \<Rightarrow> raw | None \<Rightarrow> [])\<rparr>"

text \<open>The first argument says whether \<^verbatim>\<open>window\<close> is defined.\<close>

definition loadStateFromStorage :: "bool \<Rightarrow> stored \<Rightarrow> State" where
  "loadStateFromStorage hasWindow item =
     (if \<not> hasWindow then freshState
      else case item of
             NoItem \<Rightarrow> freshState
           | Unparsable \<Rightarrow> freshState
           | Parsed d \<Rightarrow> ensureSingleActive (parsedState d))"

definition stringify :: "State \<Rightarrow> stored" where
  "stringify state =
     Parsed \<lparr>data_participants = Some (participants state),
             data_phases = Some (phases state),
             data_values = Some (map (\<lambda>(k, s). (k, UStr (cellName s))) (values_map state))\<rparr>"

definition saveStateToStorage :: "bool \<Rightarrow> State \<Rightarrow> stored \<Rightarrow> stored" where
  "saveStateToStorage hasWindow state item = (if \<not> hasWindow then item else stringify state)"

section \<open>The advancement scan\<close>

record next_cell =
  row :: nat
  col :: nat
  addPhase :: bool

function findNextActive_loop :: "State \<Rightarrow> nat \<Rightarrow> nat \<Rightarrow> next_cell" where
  "findNextActive_loop state r c =
     (if r + 1 \<ge> length (participants state) then
        (if c + 1 \<ge> length (phases state)
         then \<lparr>row = 0, col = length (phases state), addPhase = True\<rparr>
         else if getCellState state 0 (c + 1) \<noteq> Dead
              then \<lparr>row = 0, col = c + 1, addPhase = False\<rparr>
              else findNextActive_loop state 0 (c + 1))
      else if getCellState state (r + 1) c \<noteq> Dead
           then \<lparr>row = r + 1, col = c, addPhase = False\<rparr>
           else findNextActive_loop state (r + 1) c)"
  by pat_completeness auto
termination
  by (relation "measures [\<lambda>(state, r, c). length (phases state) - c,
                          \<lambda>(state, r, c). length (participants state) - r]")
     auto

declare findNextActive_loop.simps [simp del]

definition findNextActive :: "State \<Rightarrow> nat \<Rightarrow> nat \<Rightarrow> next_cell option" where
  "findNextActive state fromRow fromCol =
     (if length (participants state) = 0 \<or> length (phases state) = 0 then None
      else Some (findNextActive_loop state fromRow fromCol))"

section \<open>Derived queries\<close>

function isCharacterDeadInPreviousPhase_loop :: "State \<Rightarrow> nat \<Rightarrow> nat \<Rightarrow> nat \<Rightarrow> bool" where
  "isCharacterDeadInPreviousPhase_loop state rowIndex colIndex c =
     (if c < colIndex
      then (if getCellState state rowIndex c = Dead then True
            else isCharacterDeadInPreviousPhase_loop state rowIndex colIndex (c + 1))
      else False)"
  by pat_completeness auto
termination
  by (relation "measure (\<lambda>(state, rowIndex, colIndex, c). colIndex - c)") auto

declare isCharacterDeadInPreviousPhase_loop.simps [simp del]

definition isCharacterDeadInPreviousPhase :: "State \<Rightarrow> nat \<Rightarrow> nat \<Rightarrow> bool" where
  "isCharacterDeadInPreviousPhase state rowIndex colIndex =
     isCharacterDeadInPreviousPhase_loop state rowIndex colIndex 0"

definition isRowActive :: "State \<Rightarrow> nat \<Rightarrow> bool" where
  "isRowActive state rowIndex =
     list_ex (\<lambda>colIndex. getCellState state rowIndex colIndex = Active)
       [0 ..< length (phases state)]"

definition isCharacterRevivedInAnyPhase :: "State \<Rightarrow> nat \<Rightarrow> bool" where
  "isCharacterRevivedInAnyPhase state rowIndex =
     list_ex (\<lambda>colIndex. getCellState state rowIndex colIndex = Revived)
       [0 ..< length (phases state)]"

text \<open>\<^verbatim>\<open>findIndex\<close> over the phase columns; \<open>None\<close> is \<^verbatim>\<open>null\<close>.\<close>

definition getRevivedPhaseColumn :: "State \<Rightarrow> nat \<Rightarrow> nat option" where
  "getRevivedPhaseColumn state rowIndex =
     find (\<lambda>colIndex. getCellState state rowIndex colIndex = Revived)
       [0 ..< length (phases state)]"

section \<open>The component's callbacks\<close>

text \<open>Each callback closes over the current \<^verbatim>\<open>state\<close>, builds \<^verbatim>\<open>next\<close> and
  either returns early (\<open>None\<close>) or hands \<^verbatim>\<open>next\<close> to \<^verbatim>\<open>save\<close>.\<close>

definition phaseLabel :: "nat \<Rightarrow> string" where
  "phaseLabel n = ''Phase '' @ decimal n"

definition markDone_next :: "State \<Rightarrow> nat \<Rightarrow> nat \<Rightarrow> State option" where
  "markDone_next state rowIndex colIndex =
     (let key = getCellKey rowIndex colIndex in
      if (case map_of (values_map state) key of None \<Rightarrow> Waiting | Some v \<Rightarrow> v) \<noteq> Active
      then None
      else
        let next = state\<lparr>values_map :=
                     AList.update key
                       (if isCharacterDeadInPreviousPhase state rowIndex colIndex then Dead else Done)
                       (values_map state)\<rparr>
        in case findNextActive state rowIndex colIndex of
             None \<Rightarrow> Some next
           | Some nextCell \<Rightarrow>
               (let next1 = (if addPhase nextCell
                             then next\<lparr>phases :=
                                    phases state @ [phaseLabel (length (phases state) + 1)]\<rparr>
                             else next)
                in Some (next1\<lparr>values_map :=
                     AList.update (getCellKey (row nextCell) (col nextCell)) Active
                       (values_map next1)\<rparr>)))"

definition markDead_next :: "State \<Rightarrow> nat \<Rightarrow> nat \<Rightarrow> State option" where
  "markDead_next state rowIndex colIndex =
     (let key = getCellKey rowIndex colIndex in
      if (case map_of (values_map state) key of None \<Rightarrow> Waiting | Some v \<Rightarrow> v) \<noteq> Active
      then None
      else
        let next = state\<lparr>values_map := AList.update key Dead (values_map state)\<rparr>
        in case findNextActive state rowIndex colIndex of
             None \<Rightarrow> Some next
           | Some nextCell \<Rightarrow>
               (let next1 = (if addPhase nextCell
                             then next\<lparr>phases :=
                                    phases state @ [phaseLabel (length (phases state) + 1)]\<rparr>
                             else next)
                in Some (next1\<lparr>values_map :=
                     AList.update (getCellKey (row nextCell) (col nextCell)) Active
                       (values_map next1)\<rparr>)))"

definition revive_next :: "State \<Rightarrow> nat \<Rightarrow> nat \<Rightarrow> State option" where
  "revive_next state rowIndex colIndex =
     (let key = getCellKey rowIndex colIndex in
      if (case map_of (values_map state) key of None \<Rightarrow> Waiting | Some v \<Rightarrow> v) \<noteq> Active
      then None
      else
        let next = state\<lparr>values_map := AList.update key Revived (values_map state)\<rparr>
        in case findNextActive state rowIndex colIndex of
             None \<Rightarrow> Some next
           | Some nextCell \<Rightarrow>
               (let next1 = (if addPhase nextCell
                             then next\<lparr>phases :=
                                    phases state @ [phaseLabel (length (phases state) + 1)]\<rparr>
                             else next)
                in Some (next1\<lparr>values_map :=
                     AList.update (getCellKey (row nextCell) (col nextCell)) Active
                       (values_map next1)\<rparr>)))"

definition addParticipant_next :: "State \<Rightarrow> State" where
  "addParticipant_next state =
     ensureSingleActive (state\<lparr>participants := participants state @ ['''']\<rparr>)"

text \<open>The only caller passes the index of a rendered row; an index past the end (where
  JavaScript would extend the array with holes) is outside the model.\<close>

definition setParticipantName_next :: "State \<Rightarrow> nat \<Rightarrow> string \<Rightarrow> State" where
  "setParticipantName_next state rowIndex name =
     state\<lparr>participants := (participants state)[rowIndex := name]\<rparr>"

definition doReset_next :: State where
  "doReset_next = \<lparr>participants = [], phases = [''Phase 1''], values_map = []\<rparr>"

text \<open>The component: its state, the storage item, and the number of
  \<^verbatim>\<open>sessionStorage.setItem\<close> calls made so far.\<close>

record tracker =
  state_of :: State
  storage :: stored
  writes :: nat

definition save :: "bool \<Rightarrow> State \<Rightarrow> tracker \<Rightarrow> tracker" where
  "save hasWindow next t =
     \<lparr>state_of = next,
      storage = saveStateToStorage hasWindow next (storage t),
      writes = (if hasWindow then writes t + 1 else writes t)\<rparr>"

definition markDone :: "bool \<Rightarrow> tracker \<Rightarrow> nat \<Rightarrow> nat \<Rightarrow> tracker" where
  "markDone hasWindow t rowIndex colIndex =
     (case markDone_next (state_of t) rowIndex colIndex of
        None \<Rightarrow> t | Some next \<Rightarrow> save hasWindow next t)"

definition markDead :: "bool \<Rightarrow> tracker \<Rightarrow> nat \<Rightarrow> nat \<Rightarrow> tracker" where
  "markDead hasWindow t rowIndex colIndex =
     (case markDead_next (state_of t) rowIndex colIndex of
        None \<Rightarrow> t | Some next \<Rightarrow> save hasWindow next t)"

definition revive :: "bool \<Rightarrow> tracker \<Rightarrow> nat \<Rightarrow> nat \<Rightarrow> tracker" where
  "revive hasWindow t rowIndex colIndex =
     (case revive_next (state_of t) rowIndex colIndex of
        None \<Rightarrow> t | Some next \<Rightarrow> save hasWindow next t)"

definition addParticipant :: "bool \<Rightarrow> tracker \<Rightarrow> tracker" where
  "addParticipant hasWindow t = save hasWindow (addParticipant_next (state_of t)) t"

definition setParticipantName :: "bool \<Rightarrow> tracker \<Rightarrow> nat \<Rightarrow> string \<Rightarrow> tracker" where
  "setParticipantName hasWindow t rowIndex name =
     save hasWindow (setParticipantName_next (state_of t) rowIndex name) t"

definition doReset :: "bool \<Rightarrow> tracker \<Rightarrow> tracker" where
  "doReset hasWindow t = save hasWindow doReset_next t"

subsection \<open>Rendering of a phase cell\<close>

text \<open>What the table shows in a cell: a label, or the action buttons of the active cell
  (by their titles).\<close>

datatype cell_view = Label string | Actions "string list"

definition renderCell :: "State \<Rightarrow> nat \<Rightarrow> nat \<Rightarrow> cell_view" where
  "renderCell state rowIndex colIndex =
     (case getCellState state rowIndex colIndex of
        Waiting \<Rightarrow> Label ''Waiting''
      | Active \<Rightarrow>
          Actions [''Done'',
                   if isCharacterDeadInPreviousPhase state rowIndex colIndex
                      \<and> \<not> isCharacterRevivedInAnyPhase state rowIndex
                   then ''Revive'' else ''Dead'']
      | Done \<Rightarrow> Label ''Done''
      | Dead \<Rightarrow>
          (let revivedCol = getRevivedPhaseColumn state rowIndex;
               showAsDone = (case revivedCol of None \<Rightarrow> False | Some rc \<Rightarrow> colIndex > rc)
           in Label (if showAsDone then ''Done'' else ''Dead''))
      | Revived \<Rightarrow> Label ''Revived'')"

section \<open>Notions used by the properties\<close>

text \<open>The number of entries of a values map that are \<^verbatim>\<open>"active"\<close>, counted as
  \<open>ensureSingleActive\<close> counts them.\<close>

definition activeCount :: "(string \<times> PhaseCellState) list \<Rightarrow> nat" where
  "activeCount vs = length (activeEntries vs)"

text \<open>A values map is a JavaScript object: no key occurs twice.\<close>

definition wellFormed :: "State \<Rightarrow> bool" where
  "wellFormed state = distinct (map fst (values_map state))"

text \<open>The number of \<^verbatim>\<open>"active"\<close> entries that the loader finds in the storage item,
  before the repair.\<close>

definition storedActiveCount :: "bool \<Rightarrow> stored \<Rightarrow> nat" where
  "storedActiveCount hasWindow item =
     (case item of
        Parsed d \<Rightarrow> (if hasWindow then activeCount (values_map (parsedState d)) else 0)
      | _ \<Rightarrow> 0)"

text \<open>The states the component can hold: what a load gives, and what the callbacks make
  of such a state. The transitions are taken at any indices.\<close>

inductive reachable :: "State \<Rightarrow> bool" where
  r_load: "reachable (loadStateFromStorage hasWindow item)"
| r_addParticipant: "reachable s \<Longrightarrow> reachable (addParticipant_next s)"
| r_setParticipantName:
    "reachable s \<Longrightarrow> rowIndex < length (participants s) \<Longrightarrow>
     reachable (setParticipantName_next s rowIndex name)"
| r_markDone: "reachable s \<Longrightarrow> markDone_next s r c = Some s' \<Longrightarrow> reachable s'"
| r_markDead: "reachable s \<Longrightarrow> markDead_next s r c = Some s' \<Longrightarrow> reachable s'"
| r_revive: "reachable s \<Longrightarrow> revive_next s r c = Some s' \<Longrightarrow> reachable s'"
| r_reset: "reachable s \<Longrightarrow> reachable doReset_next"

text \<open>The scan order in the spec's words: the rows below the starting one in its column,
  then every later column from row 0 down.\<close>

definition scanOrder :: "nat \<Rightarrow> nat \<Rightarrow> nat \<Rightarrow> nat \<Rightarrow> (nat \<times> nat) list" where
  "scanOrder rows cols fromRow fromCol =
     map (\<lambda>r. (r, fromCol)) [fromRow + 1 ..< rows]
     @ concat (map (\<lambda>c. map (\<lambda>r. (r, c)) [0 ..< rows]) [fromCol + 1 ..< cols])"

text \<open>The advancement in the spec's words: the first cell of the scan order that is not
  dead, else the signal to append a phase.\<close>

definition firstLiveAfter :: "State \<Rightarrow> nat \<Rightarrow> nat \<Rightarrow> next_cell" where
  "firstLiveAfter state fromRow fromCol =
     (case find (\<lambda>(r, c). getCellState state r c \<noteq> Dead)
             (scanOrder (length (participants state)) (length (phases state)) fromRow fromCol) of
        Some (r, c) \<Rightarrow> \<lparr>row = r, col = c, addPhase = False\<rparr>
      | None \<Rightarrow> \<lparr>row = 0, col = length (phases state), addPhase = True\<rparr>)"

text \<open>The scan loop once more, as the unbounded \<^verbatim>\<open>for (;;)\<close> it is written as:
  \<open>None\<close> stands for a loop that never returns.\<close>

partial_function (option) findNextActive_scan :: "State \<Rightarrow> nat \<Rightarrow> nat \<Rightarrow> next_cell option" where
  "findNextActive_scan state r c =
     (if r + 1 \<ge> length (participants state) then
        (if c + 1 \<ge> length (phases state)
         then Some \<lparr>row = 0, col = length (phases state), addPhase = True\<rparr>
         else if getCellState state 0 (c + 1) \<noteq> Dead
              then Some \<lparr>row = 0, col = c + 1, addPhase = False\<rparr>
              else findNextActive_scan state 0 (c + 1))
      else if getCellState state (r + 1) c \<noteq> Dead
           then Some \<lparr>row = r + 1, col = c, addPhase = False\<rparr>
           else findNextActive_scan state (r + 1) c)"

text \<open>The shape the three transitions share, with the new state of the cell as a
  parameter; the proofs go through it.\<close>

definition transition :: "PhaseCellState \<Rightarrow> State \<Rightarrow> nat \<Rightarrow> nat \<Rightarrow> State option" where
  "transition target state rowIndex colIndex =
     (if getCellState state rowIndex colIndex \<noteq> Active then None
      else Some
        \<lparr>participants = participants state,
         phases = (case findNextActive state rowIndex colIndex of
                     None \<Rightarrow> phases state
                   | Some nc \<Rightarrow> if addPhase nc
                               then phases state @ [phaseLabel (length (phases state) + 1)]
                               else phases state),
         values_map = (case findNextActive state rowIndex colIndex of
                     None \<Rightarrow> AList.update (getCellKey rowIndex colIndex) target (values_map state)
                   | Some nc \<Rightarrow>
                       AList.update (getCellKey (row nc) (col nc)) Active
                         (AList.update (getCellKey rowIndex colIndex) target (values_map state)))\<rparr>)"

text \<open>What every reachable state satisfies.\<close>

definition repaired :: "State \<Rightarrow> bool" where
  "repaired state \<longleftrightarrow>
     wellFormed state \<and> phases state \<noteq> []
     \<and> (activeCount (values_map state) = 1
        \<or> activeCount (values_map state) = 0 \<and> participants state = [])"

text \<open>The entries of a values map at keys other than the listed ones.\<close>

definition otherEntries :: "string list \<Rightarrow> (string \<times> PhaseCellState) list \<Rightarrow> (string \<times> PhaseCellState) list" where
  "otherEntries ks vs = filter (\<lambda>(k, _). k \<notin> set ks) vs"

text \<open>The frame of a transition at \<open>(rowIndex, colIndex)\<close> from \<open>state\<close> to \<open>s'\<close>: same
  participants; the phases with one label appended when the scan signals it, else the
  same; the same entries except at the key of the cell and at the key of the cell the
  scan found.\<close>

definition withinFrame :: "State \<Rightarrow> nat \<Rightarrow> nat \<Rightarrow> State \<Rightarrow> bool" where
  "withinFrame state rowIndex colIndex s' \<longleftrightarrow>
     participants s' = participants state
     \<and> phases s' =
         (case findNextActive state rowIndex colIndex of
            None \<Rightarrow> phases state
          | Some nc \<Rightarrow> if addPhase nc
                      then phases state @ [phaseLabel (length (phases state) + 1)]
                      else phases state)
     \<and> (let touched = getCellKey rowIndex colIndex #
                        (case findNextActive state rowIndex colIndex of
                           None \<Rightarrow> []
                         | Some nc \<Rightarrow> [getCellKey (row nc) (col nc)])
        in otherEntries touched (values_map s') = otherEntries touched (values_map state))"

text \<open>Concrete sessions used as examples.\<close>

definition abSession :: State where
  "abSession = \<lparr>participants = [''A'', ''B''], phases = [''Phase 1''],
                values_map = [(''0-0'', Active)]\<rparr>"

definition abSessionExplicit :: State where
  "abSessionExplicit = \<lparr>participants = [''A'', ''B''], phases = [''Phase 1''],
                values_map = [(''0-0'', Active), (''1-0'', Waiting)]\<rparr>"

definition skirmish :: State where
  "skirmish = \<lparr>participants = [''A'', ''B'', ''C''],
               phases = [''Phase 1'', ''Phase 2'', ''Phase 3''],
               values_map = [(''0-0'', Active), (''1-0'', Dead), (''2-0'', Dead),
                             (''0-1'', Dead), (''1-1'', Revived), (''1-2'', Dead)]\<rparr>"

definition strayActive :: State where
  "strayActive = \<lparr>participants = [''A''], phases = [''Phase 1''],
                  values_map = [(''0-1'', Active)]\<rparr>"

definition allWaiting :: State where
  "allWaiting = \<lparr>participants = [''A''], phases = [''Phase 1''], values_map = []\<rparr>"

definition orphanActive :: stored where
  "orphanActive = Parsed \<lparr>data_participants = Some [], data_phases = Some [''Phase 1''],
                          data_values = Some [(''0-0'', UStr ''active'')]\<rparr>"

definition fallenSession :: State where
  "fallenSession = \<lparr>participants = [''A''], phases = [''Phase 1'', ''Phase 2''],
                    values_map = [(''0-0'', Dead), (''0-1'', Active)]\<rparr>"

definition abAfterFirst :: State where
  "abAfterFirst = \<lparr>participants = [''A'', ''B''], phases = [''Phase 1''],
                   values_map = [(''0-0'', Done), (''1-0'', Active)]\<rparr>"

definition abAfterSecond :: State where
  "abAfterSecond = \<lparr>participants = [''A'', ''B''], phases = [''Phase 1'', ''Phase 2''],
                    values_map = [(''0-0'', Done), (''1-0'', Done), (''0-1'', Active)]\<rparr>"

definition trackerOf :: "State \<Rightarrow> tracker" where
  "trackerOf state = \<lparr>state_of = state, storage = stringify state, writes = 0\<rparr>"

section \<open>Auxiliary facts\<close>

subsection \<open>Cell keys are injective\<close>

lemma digit_cases:
  "d < 10 \<Longrightarrow> d = 0 \<or> d = 1 \<or> d = 2 \<or> d = 3 \<or> d = 4 \<or> d = 5 \<or> d = 6 \<or> d = 7 \<or> d = 8 \<or> d = (9::nat)"
  by arith

lemma digit_inj: "d < 10 \<Longrightarrow> e < 10 \<Longrightarrow> digit d = digit e \<Longrightarrow> d = e"
  using digit_cases [of d] digit_cases [of e] by (auto simp: digit_def)

lemma digit_not_dash: "d < 10 \<Longrightarrow> digit d \<noteq> CHR ''-''"
  using digit_cases [of d] by (auto simp: digit_def)

lemma decimal_nonempty: "decimal n \<noteq> []"
  by (subst decimal.simps) simp

lemma decimal_no_dash: "CHR ''-'' \<notin> set (decimal n)"
proof (induction n rule: decimal.induct)
  case (1 n)
  show ?case
  proof (cases "n < 10")
    case True
    then show ?thesis using digit_not_dash [of n] by (subst decimal.simps) auto
  next
    case False
    with 1 show ?thesis using digit_not_dash [of "n mod 10"] by (subst decimal.simps) auto
  qed
qed

lemma decimal_inj: "decimal n = decimal m \<Longrightarrow> n = m"
proof (induction n arbitrary: m rule: decimal.induct)
  case (1 n)
  show ?case
  proof (cases "n < 10")
    case n: True
    show ?thesis
    proof (cases "m < 10")
      case True
      with n 1(2) show ?thesis
        by (simp add: decimal.simps [of n] decimal.simps [of m] digit_inj)
    next
      case False
      with n 1(2) decimal_nonempty [of "m div 10"] show ?thesis
        by (simp add: decimal.simps [of n] decimal.simps [of m])
    qed
  next
    case n: False
    show ?thesis
    proof (cases "m < 10")
      case True
      with n 1(2) decimal_nonempty [of "n div 10"] show ?thesis
        by (simp add: decimal.simps [of n] decimal.simps [of m])
    next
      case False
      with n 1(2) have eq: "decimal (n div 10) = decimal (m div 10)"
        and d: "digit (n mod 10) = digit (m mod 10)"
        by (simp_all add: decimal.simps [of n] decimal.simps [of m])
      from 1(1) [OF n eq] have "n div 10 = m div 10" .
      moreover from d have "n mod 10 = m mod 10" by (simp add: digit_inj)
      ultimately show ?thesis by (metis div_mult_mod_eq)
    qed
  qed
qed

lemma getCellKey_inj:
  "getCellKey r c = getCellKey r' c' \<longleftrightarrow> r = r' \<and> c = c'"
  unfolding getCellKey_def
  using append_Cons_eq_iff [of "CHR ''-''" "decimal r" "decimal c" "decimal r'" "decimal c'"]
    decimal_no_dash decimal_inj
  by auto

subsection \<open>Counting active entries\<close>

lemma activeCount_update:
  "activeCount (AList.update k v vs) + (if map_of vs k = Some Active then 1 else 0)
     = activeCount vs + (if v = Active then 1 else 0)"
  by (induction vs) (auto simp: activeCount_def activeEntries_def)

lemma activeCount_zero_iff:
  "activeCount vs = 0 \<longleftrightarrow> (\<forall>k. (k, Active) \<notin> set vs)"
  by (auto simp: activeCount_def activeEntries_def filter_empty_conv)

lemma activeCount_zero_map_of:
  "activeCount vs = 0 \<Longrightarrow> map_of vs k \<noteq> Some Active"
  by (auto simp: activeCount_zero_iff dest: map_of_SomeD)

lemma demote_map_of:
  "map_of (fold (\<lambda>(key, _) vs. AList.update key Done vs) es vs) k
     = (if k \<in> fst ` set es then Some Done else map_of vs k)"
  by (induction es arbitrary: vs) (auto simp: update_conv' split: prod.splits)

lemma demote_distinct:
  "distinct (map fst vs) \<Longrightarrow>
   distinct (map fst (fold (\<lambda>(key, _) vs. AList.update key Done vs) es vs))"
  by (induction es arbitrary: vs) (auto simp: distinct_update split: prod.splits)

lemma demote_activeCount:
  assumes "distinct (map fst vs)"
  shows "activeCount (fold (\<lambda>(key, _) vs. AList.update key Done vs) (activeEntries vs) vs) = 0"
proof -
  let ?vs' = "fold (\<lambda>(key, _) vs. AList.update key Done vs) (activeEntries vs) vs"
  have d: "distinct (map fst ?vs')" using assms by (rule demote_distinct)
  have "(k, Active) \<notin> set ?vs'" for k
  proof
    assume "(k, Active) \<in> set ?vs'"
    with d have m: "map_of ?vs' k = Some Active" by simp
    then have nk: "k \<notin> fst ` set (activeEntries vs)" and "map_of vs k = Some Active"
      by (auto simp: demote_map_of split: if_splits)
    then have "(k, Active) \<in> set vs" by (auto dest: map_of_SomeD)
    then have "(k, Active) \<in> set (activeEntries vs)" by (simp add: activeEntries_def)
    with nk show False by force
  qed
  then show ?thesis by (simp add: activeCount_zero_iff)
qed

subsection \<open>The repair\<close>

lemma ensureSingleActive_frame:
  "participants (ensureSingleActive state) = participants state"
  "phases (ensureSingleActive state) = phases state"
  by (simp_all add: ensureSingleActive_def Let_def)

lemma ensureSingleActive_wellFormed:
  "wellFormed state \<Longrightarrow> wellFormed (ensureSingleActive state)"
  by (auto simp: wellFormed_def ensureSingleActive_def Let_def demote_distinct distinct_update)

lemma ensureSingleActive_count:
  assumes "wellFormed state"
  shows "activeCount (values_map (ensureSingleActive state)) =
           (if activeCount (values_map state) = 1 then 1
            else if participants state \<noteq> [] \<and> phases state \<noteq> [] then 1 else 0)"
proof -
  let ?vs' = "fold (\<lambda>(key, _) vs. AList.update key Done vs)
                (activeEntries (values_map state)) (values_map state)"
  have z: "activeCount ?vs' = 0"
    using assms by (simp add: wellFormed_def demote_activeCount)
  then have "map_of ?vs' (getCellKey 0 0) \<noteq> Some Active"
    by (rule activeCount_zero_map_of)
  with z activeCount_update [of "getCellKey 0 0" Active ?vs']
  have "activeCount (AList.update (getCellKey 0 0) Active ?vs') = 1" by simp
  with z show ?thesis
    by (auto simp: ensureSingleActive_def Let_def activeCount_def)
qed

lemma ensureSingleActive_single:
  "activeCount (values_map state) = 1 \<Longrightarrow> ensureSingleActive state = state"
  by (simp add: ensureSingleActive_def activeCount_def)

lemma ensureSingleActive_none:
  "activeCount (values_map state) = 0 \<Longrightarrow> participants state = [] \<or> phases state = [] \<Longrightarrow>
   ensureSingleActive state = state"
  by (auto simp: ensureSingleActive_def activeCount_def)

subsection \<open>Migration of stored values\<close>

lemma update_fresh:
  "k \<notin> fst ` set vs \<Longrightarrow> AList.update k v vs = vs @ [(k, v)]"
  by (induction vs) auto

lemma migrate_fold_distinct:
  "distinct (map fst acc @ map fst raw) \<Longrightarrow>
   fold (\<lambda>(k, v) out. AList.update k (f v) out) raw acc = acc @ map (\<lambda>(k, v). (k, f v)) raw"
proof (induction raw arbitrary: acc)
  case Nil
  then show ?case by simp
next
  case (Cons p raw)
  obtain k v where p: "p = (k, v)" by (cases p)
  from Cons.prems p have fresh: "k \<notin> fst ` set acc" by auto
  from Cons.prems p have "distinct (map fst (acc @ [(k, f v)]) @ map fst raw)" by auto
  from Cons.IH [OF this] show ?case by (simp add: p update_fresh [OF fresh])
qed

lemma migrate_fold_keeps_distinct:
  "distinct (map fst acc) \<Longrightarrow>
   distinct (map fst (fold (\<lambda>(k, v) out. AList.update k (f v) out) raw acc))"
  by (induction raw arbitrary: acc) (auto simp: distinct_update split: prod.splits)

lemma migrateValues_distinct: "distinct (map fst (migrateValues raw))"
  unfolding migrateValues_def by (rule migrate_fold_keeps_distinct) simp

lemma isPhaseCellState_cellName: "isPhaseCellState (UStr (cellName s))"
  by (cases s) (simp_all add: isPhaseCellState_def PHASE_CELL_STATES_def)

lemma asPhaseCellState_cellName: "asPhaseCellState (UStr (cellName s)) = s"
  by (cases s) (simp_all add: asPhaseCellState_def PHASE_CELL_STATES_def)

lemma migrateValues_stringify:
  assumes "distinct (map fst vs)"
  shows "migrateValues (map (\<lambda>(k, s). (k, UStr (cellName s))) vs) = vs"
proof -
  let ?f = "\<lambda>v. if isPhaseCellState v then asPhaseCellState v else Waiting"
  let ?raw = "map (\<lambda>(k, s). (k, UStr (cellName s))) vs"
  have fst: "fst \<circ> (\<lambda>(k, s). (k, UStr (cellName s))) = fst" by auto
  have "migrateValues ?raw = [] @ map (\<lambda>(k, v). (k, ?f v)) ?raw"
    unfolding migrateValues_def
    by (rule migrate_fold_distinct) (simp add: fst assms)
  also have "\<dots> = vs"
    by (induction vs) (auto simp: isPhaseCellState_cellName asPhaseCellState_cellName)
  finally show ?thesis .
qed

lemma wellFormed_parsedState: "wellFormed (parsedState d)"
  by (simp add: wellFormed_def parsedState_def migrateValues_distinct)

lemma parsedState_stringify:
  "wellFormed s \<Longrightarrow> phases s \<noteq> [] \<Longrightarrow> stringify s = Parsed d \<Longrightarrow> parsedState d = s"
  by (auto simp: stringify_def parsedState_def wellFormed_def migrateValues_stringify)

subsection \<open>The scan\<close>

lemma scanOrder_wrap_end:
  "rows \<le> r + 1 \<Longrightarrow> cols \<le> c + 1 \<Longrightarrow> scanOrder rows cols r c = []"
  by (simp add: scanOrder_def)

lemma scanOrder_wrap:
  "rows \<le> r + 1 \<Longrightarrow> c + 1 < cols \<Longrightarrow> 0 < rows \<Longrightarrow>
   scanOrder rows cols r c = (0, c + 1) # scanOrder rows cols 0 (c + 1)"
  by (simp add: scanOrder_def upt_conv_Cons [of "Suc c" cols] upt_conv_Cons [of 0 rows])

lemma scanOrder_step:
  "r + 1 < rows \<Longrightarrow> scanOrder rows cols r c = (r + 1, c) # scanOrder rows cols (r + 1) c"
  by (simp add: scanOrder_def upt_conv_Cons [of "Suc r" rows])

text \<open>The scan order lists the positions of the grid after the start, and no other.\<close>

lemma set_scanOrder:
  "set (scanOrder rows cols fromRow fromCol) =
     {(r, c). r < rows \<and> (c = fromCol \<and> fromRow < r \<or> fromCol < c \<and> c < cols)}"
proof -
  have "\<exists>x\<in>{Suc fromCol..<cols}. (a, b) \<in> (\<lambda>xa. (xa, x)) ` {0..<rows}"
    if "a < rows" "fromCol < b" "b < cols" for a b
    using that by (intro bexI [of _ b]) auto
  then show ?thesis by (auto simp: scanOrder_def)
qed

lemma findNextActive_loop_firstLive:
  "0 < length (participants state) \<Longrightarrow>
   findNextActive_loop state r c = firstLiveAfter state r c"
proof (induction state r c rule: findNextActive_loop.induct)
  case (1 state r c)
  let ?rows = "length (participants state)" and ?cols = "length (phases state)"
  show ?case
  proof (cases "?rows \<le> r + 1")
    case wrap: True
    show ?thesis
    proof (cases "?cols \<le> c + 1")
      case True
      with wrap show ?thesis
        by (subst findNextActive_loop.simps)
           (simp add: firstLiveAfter_def scanOrder_wrap_end)
    next
      case False
      then have lt: "c + 1 < ?cols" by simp
      note so = scanOrder_wrap [OF wrap lt "1.prems"]
      show ?thesis
      proof (cases "getCellState state 0 (c + 1) = Dead")
        case True
        with wrap False "1.IH"(1) "1.prems" show ?thesis
          by (subst findNextActive_loop.simps) (simp add: firstLiveAfter_def so)
      next
        case False
        with wrap lt show ?thesis
          by (subst findNextActive_loop.simps) (simp add: firstLiveAfter_def so)
      qed
    qed
  next
    case False
    then have lt: "r + 1 < ?rows" by simp
    note so = scanOrder_step [OF lt, of ?cols c]
    show ?thesis
    proof (cases "getCellState state (r + 1) c = Dead")
      case True
      with False "1.IH"(2) "1.prems" show ?thesis
        by (subst findNextActive_loop.simps) (simp add: firstLiveAfter_def so)
    next
      case False
      with lt show ?thesis
        by (subst findNextActive_loop.simps) (simp add: firstLiveAfter_def so)
    qed
  qed
qed

lemma findNextActive_loop_after:
  "addPhase (findNextActive_loop state r c) \<and> row (findNextActive_loop state r c) = 0
     \<and> col (findNextActive_loop state r c) = length (phases state)
   \<or> \<not> addPhase (findNextActive_loop state r c)
     \<and> (col (findNextActive_loop state r c) = c \<and> r < row (findNextActive_loop state r c)
        \<or> c < col (findNextActive_loop state r c))
     \<and> getCellState state (row (findNextActive_loop state r c)) (col (findNextActive_loop state r c)) \<noteq> Dead"
proof (induction state r c rule: findNextActive_loop.induct)
  case (1 state r c)
  show ?case
    using "1.IH"
    by (subst (1 2 3 4 5 6 7 8 9) findNextActive_loop.simps) (auto simp: Let_def)
qed

lemma findNextActive_same_position:
  assumes "findNextActive state r c = Some nc" and "row nc = r" and "col nc = c"
  shows "r = 0 \<and> c = length (phases state)"
proof -
  from assms(1) have nc: "nc = findNextActive_loop state r c"
    by (auto simp: findNextActive_def split: if_splits)
  from findNextActive_loop_after [of state r c] assms(2,3) show ?thesis
    unfolding nc by auto
qed

lemma findNextActive_scan_loop:
  "findNextActive_scan state r c = Some (findNextActive_loop state r c)"
proof (induction state r c rule: findNextActive_loop.induct)
  case (1 state r c)
  then show ?case
    by (subst findNextActive_scan.simps, subst findNextActive_loop.simps) auto
qed

lemma deadInPrevious_loop_iff:
  "isCharacterDeadInPreviousPhase_loop state rowIndex colIndex c
     \<longleftrightarrow> (\<exists>k. c \<le> k \<and> k < colIndex \<and> getCellState state rowIndex k = Dead)"
proof (induction state rowIndex colIndex c rule: isCharacterDeadInPreviousPhase_loop.induct)
  case (1 state rowIndex colIndex c)
  show ?case
  proof (cases "c < colIndex")
    case False
    then show ?thesis by (subst isCharacterDeadInPreviousPhase_loop.simps) auto
  next
    case lt: True
    show ?thesis
    proof (cases "getCellState state rowIndex c = Dead")
      case True
      with lt show ?thesis by (subst isCharacterDeadInPreviousPhase_loop.simps) auto
    next
      case False
      have "(\<exists>k. c \<le> k \<and> k < colIndex \<and> getCellState state rowIndex k = Dead)
              \<longleftrightarrow> (\<exists>k. c + 1 \<le> k \<and> k < colIndex \<and> getCellState state rowIndex k = Dead)"
        using False by (metis Suc_eq_plus1 Suc_leI le_neq_implies_less Suc_leD)
      with lt False "1.IH" show ?thesis
        by (subst isCharacterDeadInPreviousPhase_loop.simps) simp
    qed
  qed
qed

lemma isCharacterDeadInPreviousPhase_iff:
  "isCharacterDeadInPreviousPhase state rowIndex colIndex
     \<longleftrightarrow> (\<exists>k<colIndex. getCellState state rowIndex k = Dead)"
  by (simp add: isCharacterDeadInPreviousPhase_def deadInPrevious_loop_iff)

subsection \<open>The transitions\<close>

lemma markDone_next_transition:
  "markDone_next state r c =
     transition (if isCharacterDeadInPreviousPhase state r c then Dead else Done) state r c"
  by (simp add: markDone_next_def transition_def getCellState_def cellAt_def Let_def
           split: option.splits)

lemma markDead_next_transition: "markDead_next state r c = transition Dead state r c"
  by (simp add: markDead_next_def transition_def getCellState_def cellAt_def Let_def
           split: option.splits)

lemma revive_next_transition: "revive_next state r c = transition Revived state r c"
  by (simp add: revive_next_def transition_def getCellState_def cellAt_def Let_def
           split: option.splits)

lemma active_map_of:
  "getCellState state r c = Active \<longleftrightarrow> map_of (values_map state) (getCellKey r c) = Some Active"
  by (auto simp: getCellState_def cellAt_def split: option.splits)

lemma transition_repaired:
  assumes inv: "repaired state" and t: "target \<noteq> Active"
    and tr: "transition target state r c = Some s'"
  shows "repaired s'"
proof -
  let ?vs = "values_map state" and ?key = "getCellKey r c"
  let ?vs1 = "AList.update ?key target ?vs"
  from tr have act: "map_of ?vs ?key = Some Active"
    by (auto simp: transition_def active_map_of split: if_splits)
  from inv have wf: "distinct (map fst ?vs)" and ph: "phases state \<noteq> []"
    by (simp_all add: repaired_def wellFormed_def)
  from act have "(?key, Active) \<in> set ?vs" by (rule map_of_SomeD)
  then have "activeCount ?vs \<noteq> 0" by (auto simp: activeCount_zero_iff)
  with inv have one: "activeCount ?vs = 1" by (auto simp: repaired_def)
  from activeCount_update [of ?key target ?vs] act t one
  have z: "activeCount ?vs1 = 0" by simp
  have d1: "distinct (map fst ?vs1)" using wf by (rule distinct_update)
  show ?thesis
  proof (cases "findNextActive state r c")
    case None
    with ph have "participants state = []"
      by (auto simp: findNextActive_def split: if_splits)
    with tr None z d1 ph show ?thesis
      by (auto simp: transition_def repaired_def wellFormed_def split: if_splits)
  next
    case (Some nc)
    let ?vs2 = "AList.update (getCellKey (row nc) (col nc)) Active ?vs1"
    from z have "map_of ?vs1 (getCellKey (row nc) (col nc)) \<noteq> Some Active"
      by (rule activeCount_zero_map_of)
    with activeCount_update [of "getCellKey (row nc) (col nc)" Active ?vs1] z
    have "activeCount ?vs2 = 1" by simp
    moreover have "distinct (map fst ?vs2)" using d1 by (rule distinct_update)
    ultimately show ?thesis using tr Some ph
      by (auto simp: transition_def repaired_def wellFormed_def split: if_splits)
  qed
qed

lemma load_repaired: "repaired (loadStateFromStorage hasWindow item)"
proof -
  have f: "repaired freshState"
    by (simp add: repaired_def freshState_def wellFormed_def activeCount_def activeEntries_def)
  have "repaired (ensureSingleActive (parsedState d))" for d
  proof -
    have "phases (parsedState d) \<noteq> []"
      by (simp add: parsedState_def split: option.splits)
    then show ?thesis
      using ensureSingleActive_count [OF wellFormed_parsedState, of d]
        ensureSingleActive_wellFormed [OF wellFormed_parsedState, of d]
      by (auto simp: repaired_def ensureSingleActive_frame split: if_splits)
  qed
  with f show ?thesis
    by (simp add: loadStateFromStorage_def split: stored.splits)
qed

lemma reachable_repaired: "reachable s \<Longrightarrow> repaired s"
proof (induction rule: reachable.induct)
  case (r_load hasWindow item)
  show ?case by (rule load_repaired)
next
  case (r_addParticipant s)
  let ?s = "s\<lparr>participants := participants s @ ['''']\<rparr>"
  from r_addParticipant.IH have wf: "wellFormed ?s" and ph: "phases ?s \<noteq> []"
    by (simp_all add: repaired_def wellFormed_def)
  from ensureSingleActive_count [OF wf] ensureSingleActive_wellFormed [OF wf] ph
  show ?case
    by (auto simp: repaired_def addParticipant_next_def ensureSingleActive_frame split: if_splits)
next
  case (r_setParticipantName s rowIndex name)
  then show ?case
    by (auto simp: repaired_def wellFormed_def setParticipantName_next_def)
next
  case (r_markDone s r c s')
  then show ?case
    by (auto simp: markDone_next_transition intro: transition_repaired split: if_splits)
next
  case (r_markDead s r c s')
  then show ?case
    by (auto simp: markDead_next_transition intro: transition_repaired)
next
  case (r_revive s r c s')
  then show ?case
    by (auto simp: revive_next_transition intro: transition_repaired)
next
  case (r_reset s)
  show ?case
    by (simp add: repaired_def doReset_next_def wellFormed_def activeCount_def activeEntries_def)
qed

subsection \<open>Frames and searches\<close>

lemma otherEntries_update:
  "k \<in> set ks \<Longrightarrow> otherEntries ks (AList.update k v vs) = otherEntries ks vs"
  by (induction vs) (auto simp: otherEntries_def)

lemma transition_withinFrame:
  "transition target state r c = Some s' \<Longrightarrow> withinFrame state r c s'"
  by (auto simp: transition_def withinFrame_def Let_def otherEntries_update
           split: if_splits option.splits)

lemma find_upt_Some:
  "find P [0 ..< n] = Some k \<longleftrightarrow> k < n \<and> P k \<and> (\<forall>j<k. \<not> P j)"
  by (auto simp: find_Some_iff)

lemma find_upt_None: "find P [0 ..< n] = None \<longleftrightarrow> (\<forall>k<n. \<not> P k)"
  by (auto simp: find_None_iff)

subsection \<open>Evaluation of concrete sessions\<close>

lemmas key_eval = getCellKey_def decimal.simps digit_def
lemmas cell_eval = getCellState_def cellAt_def key_eval
lemmas scan_eval = findNextActive_def findNextActive_loop.simps cell_eval
lemmas dead_eval = isCharacterDeadInPreviousPhase_def isCharacterDeadInPreviousPhase_loop.simps

section \<open>The properties\<close>

text \<open>
  C1 (single active cell), as amended. In every state reachable from a load (by
  \<open>addParticipant\<close>, \<open>setParticipantName\<close>, \<open>markDone\<close>, \<open>markDead\<close>, \<open>revive\<close> and
  the reset) at most one entry of the values map is active. Right after the repair of a
  load there is exactly one active entry when there are a participant and a phase. When
  the grid is empty there is none, unless the stored map held exactly one active entry:
  the repair then returns the state as it is, and that entry stays.
\<close>

theorem single_active_invariant:
  "(reachable s \<longrightarrow> activeCount (values_map s) \<le> 1)
   \<and> (participants (loadStateFromStorage hasWindow item) \<noteq> []
        \<and> phases (loadStateFromStorage hasWindow item) \<noteq> []
      \<longrightarrow> activeCount (values_map (loadStateFromStorage hasWindow item)) = 1)
   \<and> (participants (loadStateFromStorage hasWindow item) = []
        \<or> phases (loadStateFromStorage hasWindow item) = []
      \<longrightarrow> activeCount (values_map (loadStateFromStorage hasWindow item))
            = (if storedActiveCount hasWindow item = 1 then 1 else 0))"
proof -
  have a: "reachable s \<longrightarrow> activeCount (values_map s) \<le> 1"
    using reachable_repaired [of s] by (auto simp: repaired_def)
  have f: "activeCount (values_map freshState) = 0" "participants freshState = []"
    by (simp_all add: freshState_def activeCount_def activeEntries_def)
  show ?thesis
  proof (cases "hasWindow \<and> (\<exists>d. item = Parsed d)")
    case False
    then have "loadStateFromStorage hasWindow item = freshState"
      and "storedActiveCount hasWindow item = 0"
      by (auto simp: loadStateFromStorage_def storedActiveCount_def split: stored.splits)
    with a f show ?thesis by simp
  next
    case True
    then obtain d where d: "item = Parsed d" and w: hasWindow by auto
    have l: "loadStateFromStorage hasWindow item = ensureSingleActive (parsedState d)"
      and c: "storedActiveCount hasWindow item = activeCount (values_map (parsedState d))"
      using d w by (simp_all add: loadStateFromStorage_def storedActiveCount_def)
    from ensureSingleActive_count [OF wellFormed_parsedState, of d] a show ?thesis
      unfolding l c by (auto simp: ensureSingleActive_frame)
  qed
qed

theorem single_active_invariant_witness:
  "reachable (addParticipant_next freshState)
   \<and> activeCount (values_map (addParticipant_next freshState)) \<le> 1
   \<and> participants (loadStateFromStorage True (stringify allWaiting)) \<noteq> []
   \<and> phases (loadStateFromStorage True (stringify allWaiting)) \<noteq> []
   \<and> activeCount (values_map (loadStateFromStorage True (stringify allWaiting))) = 1
   \<and> participants (loadStateFromStorage True NoItem) = []
   \<and> activeCount (values_map (loadStateFromStorage True NoItem)) = 0"
proof -
  have "reachable (loadStateFromStorage True NoItem)" by (rule r_load)
  then have r: "reachable (addParticipant_next freshState)"
    by (auto simp: loadStateFromStorage_def intro: r_addParticipant)
  have p: "participants (loadStateFromStorage True (stringify allWaiting)) \<noteq> []"
    "phases (loadStateFromStorage True (stringify allWaiting)) \<noteq> []"
    by (simp_all add: loadStateFromStorage_def stringify_def allWaiting_def parsedState_def
          ensureSingleActive_frame)
  have e: "participants (loadStateFromStorage True NoItem) = []"
    "storedActiveCount True NoItem = 0"
    by (simp_all add: loadStateFromStorage_def freshState_def storedActiveCount_def)
  from r p e single_active_invariant [of "addParticipant_next freshState" True "stringify allWaiting"]
    single_active_invariant [of "addParticipant_next freshState" True NoItem]
  show ?thesis by simp
qed

text \<open>
  The claim as written asks for no active entry on an empty grid. A stored session
  without participants whose map holds one active entry is loaded unchanged.
\<close>

theorem empty_grid_active_counterexample:
  "participants (loadStateFromStorage True orphanActive) = []
   \<and> activeCount (values_map (loadStateFromStorage True orphanActive)) \<noteq> 0"
  by (simp add: loadStateFromStorage_def orphanActive_def parsedState_def migrateValues_def
        isPhaseCellState_def asPhaseCellState_def PHASE_CELL_STATES_def
        ensureSingleActive_def activeEntries_def activeCount_def Let_def)

text \<open>
  C2 (advancement). With at least one participant and one phase and a starting position
  inside the grid, \<open>findNextActive\<close> returns the first position after the start, in the
  order "next row; past the last row, row 0 of the next column", whose cell is not dead
  (an absent cell is waiting); when the columns run out first it returns the append
  signal: row 0, column the number of phases, \<open>addPhase\<close> set. A cell it returns is
  never dead.
\<close>

theorem findNextActive_first_live:
  assumes "fromRow < length (participants state)" and "fromCol < length (phases state)"
  shows "findNextActive state fromRow fromCol = Some (firstLiveAfter state fromRow fromCol)
         \<and> (addPhase (firstLiveAfter state fromRow fromCol)
            \<or> getCellState state (row (firstLiveAfter state fromRow fromCol))
                 (col (firstLiveAfter state fromRow fromCol)) \<noteq> Dead)"
proof -
  from assms have pos: "0 < length (participants state)" "0 < length (phases state)" by auto
  then have eq: "findNextActive_loop state fromRow fromCol = firstLiveAfter state fromRow fromCol"
    by (simp add: findNextActive_loop_firstLive)
  from pos have "findNextActive state fromRow fromCol = Some (firstLiveAfter state fromRow fromCol)"
    by (simp add: findNextActive_def eq)
  moreover from findNextActive_loop_after [of state fromRow fromCol]
  have "addPhase (firstLiveAfter state fromRow fromCol)
        \<or> getCellState state (row (firstLiveAfter state fromRow fromCol))
             (col (firstLiveAfter state fromRow fromCol)) \<noteq> Dead"
    unfolding eq by auto
  ultimately show ?thesis by simp
qed

theorem findNextActive_first_live_witness:
  "(0::nat) < length (participants skirmish) \<and> (0::nat) < length (phases skirmish)
   \<and> findNextActive skirmish 0 0 = Some \<lparr>row = 1, col = 1, addPhase = False\<rparr>
   \<and> firstLiveAfter skirmish 0 0 = \<lparr>row = 1, col = 1, addPhase = False\<rparr>
   \<and> getCellState skirmish 1 1 = Revived"
proof -
  have h: "(0::nat) < length (participants skirmish)" "(0::nat) < length (phases skirmish)"
    by (simp_all add: skirmish_def)
  have f: "firstLiveAfter skirmish 0 0 = \<lparr>row = 1, col = 1, addPhase = False\<rparr>"
    by (simp add: firstLiveAfter_def scanOrder_def skirmish_def cell_eval upt_rec)
  have g: "getCellState skirmish 1 1 = Revived"
    by (simp add: skirmish_def cell_eval)
  from findNextActive_first_live [OF h] h f g show ?thesis by simp
qed

text \<open>
  C3 (outcome of \<open>markDone\<close>). The table calls \<open>markDone\<close> with the indices of a
  cell it renders, that is, of a cell of the grid. For every state and every such cell
  that is active, \<open>markDone\<close> leaves the cell dead if the row is dead in some earlier
  column, and done otherwise.
\<close>

theorem markDone_sets_outcome:
  assumes "getCellState (state_of t) rowIndex colIndex = Active"
    and "rowIndex < length (participants (state_of t))"
    and "colIndex < length (phases (state_of t))"
  shows "getCellState (state_of (markDone hasWindow t rowIndex colIndex)) rowIndex colIndex
           = (if \<exists>c<colIndex. getCellState (state_of t) rowIndex c = Dead then Dead else Done)"
proof -
  let ?s = "state_of t" and ?key = "getCellKey rowIndex colIndex"
  let ?target = "if isCharacterDeadInPreviousPhase ?s rowIndex colIndex then Dead else Done"
  obtain s' where s': "markDone_next ?s rowIndex colIndex = Some s'"
    using assms(1) by (auto simp: markDone_next_transition transition_def)
  then have st: "state_of (markDone hasWindow t rowIndex colIndex) = s'"
    by (simp add: markDone_def save_def)
  from assms(2,3) have "participants ?s \<noteq> []" "phases ?s \<noteq> []" by auto
  then obtain nc where nc: "findNextActive ?s rowIndex colIndex = Some nc"
    by (simp add: findNextActive_def)
  have "\<not> (row nc = rowIndex \<and> col nc = colIndex)"
    using findNextActive_same_position [OF nc] assms(3) by auto
  then have "getCellKey (row nc) (col nc) \<noteq> ?key"
    by (simp add: getCellKey_inj)
  with s' nc assms(1) have "map_of (values_map s') ?key = Some ?target"
    by (auto simp: markDone_next_transition transition_def update_conv')
  then have "getCellState s' rowIndex colIndex = ?target"
    by (simp add: getCellState_def cellAt_def)
  then show ?thesis
    unfolding st by (simp add: isCharacterDeadInPreviousPhase_iff)
qed

theorem markDone_sets_outcome_witness:
  "getCellState (state_of (trackerOf abSession)) 0 0 = Active
   \<and> (0::nat) < length (participants (state_of (trackerOf abSession)))
   \<and> (0::nat) < length (phases (state_of (trackerOf abSession)))
   \<and> getCellState (state_of (markDone True (trackerOf abSession) 0 0)) 0 0 = Done
   \<and> getCellState (state_of (trackerOf fallenSession)) 0 1 = Active
   \<and> (0::nat) < length (participants (state_of (trackerOf fallenSession)))
   \<and> (1::nat) < length (phases (state_of (trackerOf fallenSession)))
   \<and> getCellState (state_of (trackerOf fallenSession)) 0 0 = Dead
   \<and> getCellState (state_of (markDone True (trackerOf fallenSession) 0 1)) 0 1 = Dead"
proof -
  have a: "getCellState (state_of (trackerOf abSession)) 0 0 = Active"
    "(0::nat) < length (participants (state_of (trackerOf abSession)))"
    "(0::nat) < length (phases (state_of (trackerOf abSession)))"
    by (simp_all add: trackerOf_def abSession_def cell_eval)
  have b: "getCellState (state_of (trackerOf fallenSession)) 0 1 = Active"
    "(0::nat) < length (participants (state_of (trackerOf fallenSession)))"
    "(1::nat) < length (phases (state_of (trackerOf fallenSession)))"
    by (simp_all add: trackerOf_def fallenSession_def cell_eval)
  have d: "getCellState (state_of (trackerOf fallenSession)) 0 0 = Dead"
    by (simp add: trackerOf_def fallenSession_def cell_eval)
  then have e: "\<exists>c<1. getCellState (state_of (trackerOf fallenSession)) 0 c = Dead"
    by (intro exI [of _ 0]) simp
  have "getCellState (state_of (markDone True (trackerOf abSession) 0 0)) 0 0 = Done"
    using markDone_sets_outcome [OF a, of True] by simp
  moreover have "getCellState (state_of (markDone True (trackerOf fallenSession) 0 1)) 0 1 = Dead"
    by (rule trans [OF markDone_sets_outcome [OF b, of True] if_P [OF e]])
  ultimately show ?thesis using a b d by simp
qed

text \<open>
  C4 (no-op on a cell that is not active). When the cell at the indices is not active,
  inside the grid or outside of it, \<open>markDone\<close>, \<open>markDead\<close> and \<open>revive\<close> return the
  component as it was: the same state, the same storage item, and no write.
\<close>

theorem noop_on_non_active:
  assumes "getCellState (state_of t) rowIndex colIndex \<noteq> Active"
  shows "markDone hasWindow t rowIndex colIndex = t
         \<and> markDead hasWindow t rowIndex colIndex = t
         \<and> revive hasWindow t rowIndex colIndex = t"
  using assms
  by (simp add: markDone_def markDead_def revive_def
        markDone_next_transition markDead_next_transition revive_next_transition transition_def)

theorem noop_on_non_active_witness:
  "getCellState (state_of (trackerOf abSession)) 1 0 \<noteq> Active
   \<and> getCellState (state_of (trackerOf abSession)) 5 9 \<noteq> Active
   \<and> markDone True (trackerOf abSession) 1 0 = trackerOf abSession
   \<and> markDead True (trackerOf abSession) 1 0 = trackerOf abSession
   \<and> revive True (trackerOf abSession) 5 9 = trackerOf abSession"
proof -
  have a: "getCellState (state_of (trackerOf abSession)) 1 0 \<noteq> Active"
    and b: "getCellState (state_of (trackerOf abSession)) 5 9 \<noteq> Active"
    by (simp_all add: trackerOf_def abSession_def cell_eval)
  from noop_on_non_active [OF a, of True] noop_on_non_active [OF b, of True] a b
  show ?thesis by simp
qed

text \<open>
  C5 (round trip), as amended. Saving a state whose values map has no duplicate key and
  loading it back gives the same state exactly when the state has a phase and either one
  active entry, or no active entry and no participant. Every reachable state is such a
  state, so the round trip is the identity on all of them.
\<close>

theorem save_load_round_trip:
  "(wellFormed s \<longrightarrow>
      (loadStateFromStorage True (saveStateToStorage True s item) = s
       \<longleftrightarrow> phases s \<noteq> []
           \<and> (activeCount (values_map s) = 1
              \<or> activeCount (values_map s) = 0 \<and> participants s = [])))
   \<and> (reachable s \<longrightarrow> loadStateFromStorage True (saveStateToStorage True s item) = s)"
proof -
  let ?l = "loadStateFromStorage True (saveStateToStorage True s item)"
  let ?ok = "phases s \<noteq> [] \<and> (activeCount (values_map s) = 1
              \<or> activeCount (values_map s) = 0 \<and> participants s = [])"
  obtain d where d: "stringify s = Parsed d" by (simp add: stringify_def)
  then have l: "?l = ensureSingleActive (parsedState d)"
    by (simp add: loadStateFromStorage_def saveStateToStorage_def)
  have ph: "phases ?l \<noteq> []"
    unfolding l by (simp add: ensureSingleActive_frame parsedState_def split: option.splits)
  have to_s: "?l = s" if wf: "wellFormed s" and ok: "?ok"
  proof -
    from wf ok d have "parsedState d = s" by (simp add: parsedState_stringify)
    with ok show ?thesis
      unfolding l by (auto simp: ensureSingleActive_single ensureSingleActive_none)
  qed
  have forth: "?ok" if wf: "wellFormed s" and eq: "?l = s"
  proof -
    from ph eq have p: "phases s \<noteq> []" by simp
    with wf d have "parsedState d = s" by (simp add: parsedState_stringify)
    with eq l have "ensureSingleActive s = s" by simp
    with ensureSingleActive_count [OF wf] p show ?thesis
      by (auto split: if_splits)
  qed
  have "reachable s \<longrightarrow> ?l = s"
    using reachable_repaired [of s] to_s by (auto simp: repaired_def)
  with to_s forth show ?thesis by blast
qed

theorem save_load_round_trip_witness:
  "wellFormed abSession \<and> reachable freshState
   \<and> loadStateFromStorage True (saveStateToStorage True abSession NoItem) = abSession
   \<and> loadStateFromStorage True (saveStateToStorage True freshState NoItem) = freshState"
proof -
  have w: "wellFormed abSession"
    by (simp add: wellFormed_def abSession_def)
  have c: "phases abSession \<noteq> []" "activeCount (values_map abSession) = 1"
    by (simp_all add: abSession_def activeCount_def activeEntries_def)
  have "reachable (loadStateFromStorage True NoItem)" by (rule r_load)
  then have r: "reachable freshState" by (simp add: loadStateFromStorage_def)
  from save_load_round_trip [of abSession NoItem] save_load_round_trip [of freshState NoItem]
    w c r
  show ?thesis by simp
qed

text \<open>
  The claim as written covers every state. A state with a participant, a phase and no
  active entry comes back with cell (0,0) active.
\<close>

theorem save_load_round_trip_counterexample:
  "loadStateFromStorage True (saveStateToStorage True allWaiting NoItem) \<noteq> allWaiting"
  by (simp add: loadStateFromStorage_def saveStateToStorage_def stringify_def allWaiting_def
        parsedState_def migrateValues_def ensureSingleActive_def activeEntries_def Let_def)

text \<open>
  C6 (display of a dead cell). A cell stored as dead is shown as Done exactly when its
  row has a revived cell among the phase columns and the column of the cell is greater
  than the first such column; otherwise it is shown as Dead. For a cell of the grid it
  makes no difference whether the first revived column is sought among the phase columns
  or among all columns.
\<close>

theorem dead_cell_display:
  assumes "getCellState state rowIndex colIndex = Dead"
  shows "renderCell state rowIndex colIndex =
           (if \<exists>k<length (phases state).
                 getCellState state rowIndex k = Revived
                 \<and> (\<forall>j<k. getCellState state rowIndex j \<noteq> Revived) \<and> k < colIndex
            then Label ''Done'' else Label ''Dead'')
         \<and> (colIndex < length (phases state) \<longrightarrow>
             renderCell state rowIndex colIndex =
               (if \<exists>k. getCellState state rowIndex k = Revived
                      \<and> (\<forall>j<k. getCellState state rowIndex j \<noteq> Revived) \<and> k < colIndex
                then Label ''Done'' else Label ''Dead''))"
proof -
  let ?first = "\<lambda>k. getCellState state rowIndex k = Revived
                 \<and> (\<forall>j<k. getCellState state rowIndex j \<noteq> Revived) \<and> k < colIndex"
  have main: "renderCell state rowIndex colIndex =
           (if \<exists>k<length (phases state). ?first k then Label ''Done'' else Label ''Dead'')"
  proof (cases "getRevivedPhaseColumn state rowIndex")
    case None
    then have "\<forall>k<length (phases state). getCellState state rowIndex k \<noteq> Revived"
      by (simp add: getRevivedPhaseColumn_def find_upt_None)
    with None assms show ?thesis
      by (auto simp: renderCell_def)
  next
    case (Some rc)
    then have rc: "rc < length (phases state)" "getCellState state rowIndex rc = Revived"
      "\<forall>j<rc. getCellState state rowIndex j \<noteq> Revived"
      by (simp_all add: getRevivedPhaseColumn_def find_upt_Some)
    have "(\<exists>k<length (phases state). ?first k) \<longleftrightarrow> rc < colIndex"
      using rc by (metis linorder_neqE_nat)
    with Some assms show ?thesis
      by (simp add: renderCell_def)
  qed
  have "(\<exists>k. ?first k) \<longleftrightarrow> (\<exists>k<length (phases state). ?first k)"
    if "colIndex < length (phases state)"
    using that by (meson less_trans)
  with main show ?thesis by simp
qed

theorem dead_cell_display_witness:
  "getCellState skirmish 1 2 = Dead \<and> renderCell skirmish 1 2 = Label ''Done''
   \<and> getCellState skirmish 1 0 = Dead \<and> renderCell skirmish 1 0 = Label ''Dead''
   \<and> getCellState skirmish 0 1 = Dead \<and> renderCell skirmish 0 1 = Label ''Dead''"
proof -
  have d: "getCellState skirmish 1 2 = Dead" "getCellState skirmish 1 0 = Dead"
    "getCellState skirmish 0 1 = Dead"
    by (simp_all add: skirmish_def cell_eval)
  have r: "renderCell skirmish 1 2 = Label ''Done''" "renderCell skirmish 1 0 = Label ''Dead''"
    "renderCell skirmish 0 1 = Label ''Dead''"
    by (simp_all add: renderCell_def getRevivedPhaseColumn_def skirmish_def cell_eval upt_rec)
  from dead_cell_display [OF d(1)] dead_cell_display [OF d(2)] dead_cell_display [OF d(3)] d r
  show ?thesis by simp
qed

text \<open>
  C7 (two-participant walkthrough). The component holds participants A and B, one phase
  and cell (0,0) active, every other cell waiting (absent, or stored as waiting). After
  \<open>markDone 0 0\<close> its state has (0,0) done and (1,0) active. After a further
  \<open>markDone 1 0\<close> its state has (1,0) done, the phases \<open>Phase 1\<close> and \<open>Phase 2\<close>, and
  (0,1) active; in the browser both states were written to the storage.
\<close>

theorem two_participant_walkthrough:
  "state_of (markDone hasWindow (trackerOf abSession) 0 0) = abAfterFirst
   \<and> getCellState (state_of (markDone hasWindow (trackerOf abSession) 0 0)) 0 0 = Done
   \<and> getCellState (state_of (markDone hasWindow (trackerOf abSession) 0 0)) 1 0 = Active
   \<and> state_of (markDone hasWindow (markDone hasWindow (trackerOf abSession) 0 0) 1 0)
       = abAfterSecond
   \<and> getCellState (state_of (markDone hasWindow (markDone hasWindow (trackerOf abSession) 0 0) 1 0)) 1 0
       = Done
   \<and> phases (state_of (markDone hasWindow (markDone hasWindow (trackerOf abSession) 0 0) 1 0))
       = [''Phase 1'', ''Phase 2'']
   \<and> getCellState (state_of (markDone hasWindow (markDone hasWindow (trackerOf abSession) 0 0) 1 0)) 0 1
       = Active
   \<and> state_of (markDone hasWindow (trackerOf abSessionExplicit) 0 0) = abAfterFirst
   \<and> state_of (markDone hasWindow (markDone hasWindow (trackerOf abSessionExplicit) 0 0) 1 0)
       = abAfterSecond
   \<and> markDone True (markDone True (trackerOf abSession) 0 0) 1 0
       = \<lparr>state_of = abAfterSecond, storage = stringify abAfterSecond, writes = 2\<rparr>"
proof -
  have n1: "markDone_next abSession 0 0 = Some abAfterFirst"
    "markDone_next abSessionExplicit 0 0 = Some abAfterFirst"
    by (simp_all add: abSession_def abSessionExplicit_def abAfterFirst_def markDone_next_def
          scan_eval dead_eval phaseLabel_def Let_def)
  have n2: "markDone_next abAfterFirst 1 0 = Some abAfterSecond"
    by (simp add: abAfterFirst_def abAfterSecond_def markDone_next_def
          scan_eval dead_eval phaseLabel_def Let_def)
  have s1: "markDone w (trackerOf abSession) 0 0 = save w abAfterFirst (trackerOf abSession)"
    "markDone w (trackerOf abSessionExplicit) 0 0
       = save w abAfterFirst (trackerOf abSessionExplicit)" for w
    by (simp_all add: markDone_def trackerOf_def n1)
  have s2: "markDone w (save w abAfterFirst t) 1 0 = save w abAfterSecond (save w abAfterFirst t)"
    for w t
    using n2 by (simp add: markDone_def save_def)
  have st: "state_of (save w next t) = next" for w "next" t
    by (simp add: save_def)
  have c: "getCellState abAfterFirst 0 0 = Done" "getCellState abAfterFirst 1 0 = Active"
    "getCellState abAfterSecond 1 0 = Done" "getCellState abAfterSecond 0 1 = Active"
    "phases abAfterSecond = [''Phase 1'', ''Phase 2'']"
    by (simp_all add: abAfterFirst_def abAfterSecond_def cell_eval)
  have w2: "save True abAfterSecond (save True abAfterFirst (trackerOf abSession))
              = \<lparr>state_of = abAfterSecond, storage = stringify abAfterSecond, writes = 2\<rparr>"
    by (simp add: save_def saveStateToStorage_def trackerOf_def)
  show ?thesis
    unfolding s1 s2 st w2 using c by simp
qed

text \<open>
  C8 (termination). The unbounded scan loop returns on every state and every pair of
  starting indices, with the append signal or with a cell that is not dead;
  \<open>findNextActive\<close> is \<open>null\<close> exactly when there is no participant or no phase. So
  \<open>markDone\<close>, \<open>markDead\<close> and \<open>revive\<close> always return: either the component unchanged,
  or the component after one \<open>save\<close>. The model of the callbacks has no error branch,
  because the source has no statement that can throw on a state of its type.
\<close>

theorem findNextActive_terminates:
  "(\<exists>nc. findNextActive_scan state fromRow fromCol = Some nc
         \<and> findNextActive state fromRow fromCol
             = (if length (participants state) = 0 \<or> length (phases state) = 0 then None
                else Some nc)
         \<and> (addPhase nc \<and> row nc = 0 \<and> col nc = length (phases state)
            \<or> \<not> addPhase nc \<and> getCellState state (row nc) (col nc) \<noteq> Dead))
   \<and> (markDone hasWindow t rowIndex colIndex = t
      \<or> (\<exists>next. markDone hasWindow t rowIndex colIndex = save hasWindow next t))
   \<and> (markDead hasWindow t rowIndex colIndex = t
      \<or> (\<exists>next. markDead hasWindow t rowIndex colIndex = save hasWindow next t))
   \<and> (revive hasWindow t rowIndex colIndex = t
      \<or> (\<exists>next. revive hasWindow t rowIndex colIndex = save hasWindow next t))"
proof -
  have "findNextActive_scan state fromRow fromCol = Some (findNextActive_loop state fromRow fromCol)"
    by (rule findNextActive_scan_loop)
  moreover have "findNextActive state fromRow fromCol
             = (if length (participants state) = 0 \<or> length (phases state) = 0 then None
                else Some (findNextActive_loop state fromRow fromCol))"
    by (simp add: findNextActive_def)
  moreover note findNextActive_loop_after [of state fromRow fromCol]
  ultimately have scan: "\<exists>nc. findNextActive_scan state fromRow fromCol = Some nc
         \<and> findNextActive state fromRow fromCol
             = (if length (participants state) = 0 \<or> length (phases state) = 0 then None
                else Some nc)
         \<and> (addPhase nc \<and> row nc = 0 \<and> col nc = length (phases state)
            \<or> \<not> addPhase nc \<and> getCellState state (row nc) (col nc) \<noteq> Dead)"
    by (intro exI [of _ "findNextActive_loop state fromRow fromCol"]) blast
  have "markDone hasWindow t rowIndex colIndex = t
      \<or> (\<exists>next. markDone hasWindow t rowIndex colIndex = save hasWindow next t)"
    by (cases "markDone_next (state_of t) rowIndex colIndex") (auto simp: markDone_def)
  moreover have "markDead hasWindow t rowIndex colIndex = t
      \<or> (\<exists>next. markDead hasWindow t rowIndex colIndex = save hasWindow next t)"
    by (cases "markDead_next (state_of t) rowIndex colIndex") (auto simp: markDead_def)
  moreover have "revive hasWindow t rowIndex colIndex = t
      \<or> (\<exists>next. revive hasWindow t rowIndex colIndex = save hasWindow next t)"
    by (cases "revive_next (state_of t) rowIndex colIndex") (auto simp: revive_def)
  ultimately show ?thesis using scan by blast
qed

theorem findNextActive_terminates_witness:
  "findNextActive_scan skirmish 0 0 = Some \<lparr>row = 1, col = 1, addPhase = False\<rparr>"
proof -
  have f: "findNextActive skirmish 0 0 = Some \<lparr>row = 1, col = 1, addPhase = False\<rparr>"
    by (simp add: skirmish_def scan_eval)
  have n: "\<not> (length (participants skirmish) = 0 \<or> length (phases skirmish) = 0)"
    by (simp add: skirmish_def)
  from findNextActive_terminates [of skirmish 0 0 True "trackerOf skirmish" 0 0]
  obtain nc where "findNextActive_scan skirmish 0 0 = Some nc"
    and "findNextActive skirmish 0 0
           = (if length (participants skirmish) = 0 \<or> length (phases skirmish) = 0 then None
              else Some nc)"
    by blast
  with f n show ?thesis by simp
qed

text \<open>
  C9 (frame of the transitions). On an active cell each of \<open>markDone\<close>, \<open>markDead\<close> and
  \<open>revive\<close> keeps the participants, keeps the phases or, when the scan signals it,
  appends exactly one label to them, and changes the values map at no key other than
  that of the cell and that of the cell made active.
\<close>

theorem transition_frame:
  assumes "getCellState (state_of t) rowIndex colIndex = Active"
  shows "withinFrame (state_of t) rowIndex colIndex (state_of (markDone hasWindow t rowIndex colIndex))
         \<and> withinFrame (state_of t) rowIndex colIndex (state_of (markDead hasWindow t rowIndex colIndex))
         \<and> withinFrame (state_of t) rowIndex colIndex (state_of (revive hasWindow t rowIndex colIndex))"
proof -
  obtain s1 s2 s3 where s:
    "markDone_next (state_of t) rowIndex colIndex = Some s1"
    "markDead_next (state_of t) rowIndex colIndex = Some s2"
    "revive_next (state_of t) rowIndex colIndex = Some s3"
    using assms
    by (auto simp: markDone_next_transition markDead_next_transition revive_next_transition
          transition_def)
  then have "withinFrame (state_of t) rowIndex colIndex s1"
    "withinFrame (state_of t) rowIndex colIndex s2"
    "withinFrame (state_of t) rowIndex colIndex s3"
    by (auto simp: markDone_next_transition markDead_next_transition revive_next_transition
          intro: transition_withinFrame split: if_splits)
  with s show ?thesis
    by (simp add: markDone_def markDead_def revive_def save_def)
qed

theorem transition_frame_witness:
  "getCellState (state_of (trackerOf skirmish)) 0 0 = Active
   \<and> withinFrame skirmish 0 0 (state_of (markDone True (trackerOf skirmish) 0 0))
   \<and> withinFrame skirmish 0 0 (state_of (markDead True (trackerOf skirmish) 0 0))
   \<and> withinFrame skirmish 0 0 (state_of (revive True (trackerOf skirmish) 0 0))"
proof -
  have a: "getCellState (state_of (trackerOf skirmish)) 0 0 = Active"
    by (simp add: trackerOf_def skirmish_def cell_eval)
  have b: "state_of (trackerOf skirmish) = skirmish" by (simp add: trackerOf_def)
  from transition_frame [OF a, of True] a show ?thesis by (simp add: b)
qed

text \<open>
  C10 (active key outside the grid). When the only active entry of the values map has a
  key outside the grid, the repair returns the state unchanged, a load of a storage item
  that parses to this state gives this state, and no cell of the grid is active in it,
  also when there are participants and phases.
\<close>

theorem stray_active_kept:
  assumes "activeEntries (values_map state) = [(getCellKey r c, Active)]"
    and "length (participants state) \<le> r \<or> length (phases state) \<le> c"
  shows "ensureSingleActive state = state
         \<and> (parsedState d = state \<longrightarrow> loadStateFromStorage True (Parsed d) = state)
         \<and> (\<forall>r'<length (participants state). \<forall>c'<length (phases state).
               getCellState state r' c' \<noteq> Active)"
proof -
  from assms(1) have e: "ensureSingleActive state = state"
    by (simp add: ensureSingleActive_def)
  have "getCellState state r' c' \<noteq> Active"
    if "r' < length (participants state)" and "c' < length (phases state)" for r' c'
  proof
    assume "getCellState state r' c' = Active"
    then have "map_of (values_map state) (getCellKey r' c') = Some Active"
      by (simp add: active_map_of)
    then have "(getCellKey r' c', Active) \<in> set (values_map state)" by (rule map_of_SomeD)
    then have "(getCellKey r' c', Active) \<in> set (activeEntries (values_map state))"
      by (simp add: activeEntries_def)
    with assms(1) have "getCellKey r' c' = getCellKey r c" by simp
    with that assms(2) show False by (auto simp: getCellKey_inj)
  qed
  with e show ?thesis by (auto simp: loadStateFromStorage_def)
qed

theorem stray_active_kept_witness:
  "activeEntries (values_map strayActive) = [(getCellKey 0 1, Active)]
   \<and> length (phases strayActive) \<le> 1
   \<and> participants strayActive \<noteq> [] \<and> phases strayActive \<noteq> []
   \<and> ensureSingleActive strayActive = strayActive
   \<and> loadStateFromStorage True (stringify strayActive) = strayActive
   \<and> getCellState strayActive 0 0 \<noteq> Active"
proof -
  have a: "activeEntries (values_map strayActive) = [(getCellKey 0 1, Active)]"
    by (simp add: strayActive_def activeEntries_def key_eval)
  have b: "length (participants strayActive) \<le> 0 \<or> length (phases strayActive) \<le> 1"
    by (simp add: strayActive_def)
  have p: "parsedState \<lparr>data_participants = Some [''A''], data_phases = Some [''Phase 1''],
             data_values = Some [(''0-1'', UStr ''active'')]\<rparr> = strayActive"
    by (simp add: parsedState_def strayActive_def migrateValues_def isPhaseCellState_def
          asPhaseCellState_def PHASE_CELL_STATES_def)
  have s: "stringify strayActive = Parsed \<lparr>data_participants = Some [''A''],
             data_phases = Some [''Phase 1''],
             data_values = Some [(''0-1'', UStr ''active'')]\<rparr>"
    by (simp add: stringify_def strayActive_def)
  have l: "length (participants strayActive) = 1" "length (phases strayActive) = 1"
    by (simp_all add: strayActive_def)
  from stray_active_kept [OF a b, of "\<lparr>data_participants = Some [''A''],
             data_phases = Some [''Phase 1''],
             data_values = Some [(''0-1'', UStr ''active'')]\<rparr>"] a p
  show ?thesis by (simp add: s l) (simp add: strayActive_def)
qed

end
